theory Spec2Isabelle
  imports Main "HOL-Library.Word" "HOL-Library.Sublist" "HOL-Library.Multiset"
begin

section \<open>JavaScript values\<close>

text \<open>
  A JavaScript string is a sequence of UTF-16 code units: \<open>length\<close>, \<open>slice\<close>,
  \<open>endsWith\<close>, \<open>lastIndexOf\<close> and a regular expression without the \<open>u\<close> flag all
  work on code units. A spreadsheet cell is a string or a number; \<open>null\<close> and
  \<open>undefined\<close> (the value of a property a row does not have) are tested for by the
  code and are part of the model. \<open>Num n\<close> is a number cell whose value is a
  safe integer (of magnitude at most \<open>2\<^sup>5\<^sup>3\<close>), which \<open>String\<close> prints as its decimal
  numeral; cells with other numbers or with booleans are not modelled.
\<close>

type_synonym code_unit = "16 word"
type_synonym jsstring = "code_unit list"

datatype cell = Str jsstring | Num int | Null | Undefined

text \<open>The code units of an ASCII string literal.\<close>

definition ascii :: "string \<Rightarrow> jsstring" where
  "ascii s = map (\<lambda>c. of_nat (of_char c)) s"

definition PLUS :: code_unit where
  "PLUS = 0x2B"

definition SPACE :: code_unit where
  "SPACE = 0x20"

text \<open>The characters \<open>trim\<close> strips and \<open>\s\<close> matches: WhiteSpace and LineTerminator.\<close>

definition isWhitespace :: "code_unit \<Rightarrow> bool" where
  "isWhitespace c =
     (c \<in> set [0x09, 0x0A, 0x0B, 0x0C, 0x0D, 0x20, 0xA0, 0x1680, 0x2028, 0x2029,
                0x202F, 0x205F, 0x3000, 0xFEFF]
      \<or> (0x2000 \<le> c \<and> c \<le> 0x200A))"

text \<open>The character class of code units U+4E00 to U+9FFF.\<close>

definition isCJK :: "code_unit \<Rightarrow> bool" where
  "isCJK c = (0x4E00 \<le> c \<and> c \<le> 0x9FFF)"

function digitsOf :: "nat \<Rightarrow> jsstring" where
  "digitsOf n =
     (if n < 10 then [of_nat (48 + n)]
      else digitsOf (n div 10) @ [of_nat (48 + n mod 10)])"
  by pat_completeness auto
termination
  by (relation "measure id") auto

declare digitsOf.simps [simp del]

text \<open>\<open>String(v)\<close>, which is also the property key a value is coerced to.\<close>

definition toString :: "cell \<Rightarrow> jsstring" where
  "toString v =
     (case v of
        Str s \<Rightarrow> s
      | Num n \<Rightarrow> (if n < 0 then 0x2D # digitsOf (nat (- n)) else digitsOf (nat n))
      | Null \<Rightarrow> ascii ''null''
      | Undefined \<Rightarrow> ascii ''undefined'')"

text \<open>\<open>s.endsWith(c)\<close> for a one-character \<open>c\<close>, and \<open>s.lastIndexOf(c)\<close> with its -1.\<close>

definition endsWith :: "jsstring \<Rightarrow> code_unit \<Rightarrow> bool" where
  "endsWith s c = (s \<noteq> [] \<and> last s = c)"

fun lastIndexOf :: "jsstring \<Rightarrow> code_unit \<Rightarrow> int" where
  "lastIndexOf [] c = - 1"
| "lastIndexOf (x # xs) c =
     (let r = lastIndexOf xs c
      in if r \<noteq> - 1 then r + 1 else if x = c then 0 else - 1)"

text \<open>\<open>s.trim()\<close> and \<open>s.replace(/\s+/g, ' ')\<close>.\<close>

definition trimStr :: "jsstring \<Rightarrow> jsstring" where
  "trimStr s = rev (dropWhile isWhitespace (rev (dropWhile isWhitespace s)))"

function collapseWhitespace :: "jsstring \<Rightarrow> jsstring" where
  "collapseWhitespace [] = []"
| "collapseWhitespace (c # cs) =
     (if isWhitespace c then SPACE # collapseWhitespace (dropWhile isWhitespace cs)
      else c # collapseWhitespace cs)"
  by pat_completeness auto
termination
  by (relation "measure length") (auto simp: length_dropWhile_le less_Suc_eq_le)

section \<open>The category-field trimmer\<close>

text \<open>
  \<open>calculateChineseLength\<close>: the number of CJK code units counted twice plus the
  number of the others.
\<close>

definition calculateChineseLength :: "cell \<Rightarrow> int" where
  "calculateChineseLength text =
     (if text = Null \<or> text = Undefined then 0
      else
        let t = toString text;
            chineseCount = length (filter isCJK t)
        in int chineseCount * 2 + (int (length t) - int chineseCount))"

definition normalizeReasonCategory :: "cell \<Rightarrow> jsstring" where
  "normalizeReasonCategory reasonCategory =
     (if reasonCategory = Null \<or> reasonCategory = Undefined then []
      else collapseWhitespace (trimStr (toString reasonCategory)))"

text \<open>The loop \<open>while (result.endsWith('+')) result = result.slice(0, -1)\<close>.\<close>

function stripPlus :: "jsstring \<Rightarrow> jsstring" where
  "stripPlus result = (if endsWith result PLUS then stripPlus (butlast result) else result)"
  by pat_completeness auto
termination
  by (relation "measure length") (auto simp: endsWith_def)

declare stripPlus.simps [simp del]

text \<open>
  The loop \<open>for (let i = reasonCategory.length; i > 0; i--)\<close> of
  \<open>trimReasonCategoryField\<close>, with \<open>i\<close> as the last argument; falling out of the
  loop returns the empty string.
\<close>

fun truncateLoop :: "jsstring \<Rightarrow> int \<Rightarrow> nat \<Rightarrow> jsstring" where
  "truncateLoop reasonCategory maxLength 0 = []"
| "truncateLoop reasonCategory maxLength (Suc k) =
     (let truncated = take (Suc k) reasonCategory
      in if calculateChineseLength (Str truncated) \<le> maxLength then
           (let lastPlusIndex = lastIndexOf truncated PLUS;
                truncated' =
                  (if lastPlusIndex \<noteq> - 1 \<and> lastPlusIndex < int (length truncated) - 1
                   then take (nat lastPlusIndex) truncated
                   else truncated)
            in stripPlus truncated')
         else truncateLoop reasonCategory maxLength k)"

definition trimReasonCategoryField :: "jsstring \<Rightarrow> int \<Rightarrow> jsstring" where
  "trimReasonCategoryField reasonCategory maxLength =
     (if calculateChineseLength (Str reasonCategory) \<le> maxLength then stripPlus reasonCategory
      else truncateLoop reasonCategory maxLength (length reasonCategory))"

section \<open>Objects and rows\<close>

text \<open>
  An object is the list of its own properties in the order they were created.
  \<open>obj[k] = v\<close> replaces the value of an existing property in place and adds a new
  property at the end. \<open>Object.keys\<close> and \<open>Object.entries\<close> list the properties whose
  key is an array index (the canonical decimal numeral of an integer from 0 to
  \<open>2\<^sup>3\<^sup>2 - 2\<close>) first, in ascending numeric order, and then the others in order of
  creation.
\<close>

type_synonym 'v object = "(jsstring \<times> 'v) list"

fun setProperty :: "'v object \<Rightarrow> jsstring \<Rightarrow> 'v \<Rightarrow> 'v object" where
  "setProperty [] k v = [(k, v)]"
| "setProperty (p # ps) k v = (if fst p = k then (k, v) # ps else p # setProperty ps k v)"

definition isDigit :: "code_unit \<Rightarrow> bool" where
  "isDigit c = (0x30 \<le> c \<and> c \<le> 0x39)"

definition digitsValue :: "jsstring \<Rightarrow> int" where
  "digitsValue s = foldl (\<lambda>a c. 10 * a + (uint c - 48)) 0 s"

definition isArrayIndex :: "jsstring \<Rightarrow> bool" where
  "isArrayIndex k =
     (k \<noteq> [] \<and> list_all isDigit k \<and> (length k = 1 \<or> hd k \<noteq> 0x30)
      \<and> digitsValue k < 2 ^ 32 - 1)"

definition ownPropertyOrder :: "('a \<Rightarrow> jsstring) \<Rightarrow> 'a list \<Rightarrow> 'a list" where
  "ownPropertyOrder key xs =
     sort_key (\<lambda>x. digitsValue (key x)) (filter (\<lambda>x. isArrayIndex (key x)) xs)
     @ filter (\<lambda>x. \<not> isArrayIndex (key x)) xs"

definition Object_entries :: "'v object \<Rightarrow> (jsstring \<times> 'v) list" where
  "Object_entries obj = ownPropertyOrder fst obj"

definition Object_keys :: "'v object \<Rightarrow> jsstring list" where
  "Object_keys obj = map fst (Object_entries obj)"

text \<open>
  A row is an object of cells; \<open>row[k]\<close> is \<open>undefined\<close> for a property the row does
  not have (the column names the callers pass are not names of \<open>Object.prototype\<close>).
\<close>

type_synonym row = "cell object"

definition getField :: "row \<Rightarrow> jsstring \<Rightarrow> cell" where
  "getField r k = (case map_of r k of None \<Rightarrow> Undefined | Some v \<Rightarrow> v)"

text \<open>
  The column names of the category field (U+6DA8 U+505C U+539F U+56E0 U+7C7B U+522B)
  and of the reason field (U+6DA8 U+505C U+539F U+56E0).
\<close>

definition limitReasonCategoryKey :: jsstring where
  "limitReasonCategoryKey = [0x6DA8, 0x505C, 0x539F, 0x56E0, 0x7C7B, 0x522B]"

definition limitReasonKey :: jsstring where
  "limitReasonKey = [0x6DA8, 0x505C, 0x539F, 0x56E0]"

text \<open>
  The body of the \<open>try\<close> block of \<open>processReasonCategoryField\<close>: the new value of the
  category field, at the default width budget 36. Nothing in it throws on a cell of the
  model, so the \<open>catch\<close> branch is never taken.
\<close>

definition processCategoryCell :: "cell \<Rightarrow> jsstring" where
  "processCategoryCell v = trimReasonCategoryField (normalizeReasonCategory v) 36"

definition processReasonCategoryField :: "row list \<Rightarrow> row list" where
  "processReasonCategoryField data =
     map (\<lambda>r. setProperty r limitReasonCategoryKey
                  (Str (processCategoryCell (getField r limitReasonCategoryKey))))
       data"

section \<open>The column resolver\<close>

text \<open>\<open>s.includes(t)\<close>: \<open>t\<close> occurs in \<open>s\<close> as a contiguous substring.\<close>

fun includesStr :: "jsstring \<Rightarrow> jsstring \<Rightarrow> bool" where
  "includesStr [] t = (t = [])"
| "includesStr (c # cs) t = (prefix t (c # cs) \<or> includesStr cs t)"

definition findColumn :: "row list \<Rightarrow> jsstring \<Rightarrow> jsstring option" where
  "findColumn data columnName =
     (if length data = 0 then None
      else
        let firstRow = hd data;
            columns = Object_keys firstRow
        in if columnName \<in> set columns then Some columnName
           else
             (case find (\<lambda>col. trimStr col = columnName) columns of
                Some col \<Rightarrow> Some col
              | None \<Rightarrow>
                  (case find (\<lambda>col. includesStr col columnName) columns of
                     Some col \<Rightarrow> Some col
                   | None \<Rightarrow> None)))"

section \<open>Counting categories\<close>

text \<open>
  The counting object starts as \<open>{}\<close> and so inherits from \<open>Object.prototype\<close>.
  \<open>__proto__\<close> is an accessor there: \<open>categoryCounts['__proto__']\<close> is the prototype
  object, which is truthy, and assigning the string \<open>'[object Object]1'\<close> to it is
  ignored, so no property is created. The other inherited properties are methods:
  for a category that names one of them the property created holds a string, not a
  number. Such categories (\<open>inheritedMethodNames\<close>) are outside the model, which
  counts them like any other key; the theorems about the counts and their order are
  stated for datasets without them, and what is proved of the pages for every dataset
  does not depend on the counts or on the order of the groups.
\<close>

definition protoKey :: jsstring where
  "protoKey = ascii ''__proto__''"

definition inheritedMethodNames :: "jsstring list" where
  "inheritedMethodNames =
     map ascii
       [''constructor'', ''hasOwnProperty'', ''isPrototypeOf'', ''propertyIsEnumerable'',
        ''toLocaleString'', ''toString'', ''valueOf'', ''__defineGetter__'',
        ''__defineSetter__'', ''__lookupGetter__'', ''__lookupSetter__'']"

definition inheritedKey :: "jsstring \<Rightarrow> bool" where
  "inheritedKey k = (k = protoKey \<or> k \<in> set inheritedMethodNames)"

text \<open>
  \<open>categoryCounts[category] = (categoryCounts[category] || 0) + 1\<close>; the category is
  coerced to a property key.
\<close>

definition countCategory :: "nat object \<Rightarrow> cell \<Rightarrow> nat object" where
  "countCategory categoryCounts category =
     (let k = toString category
      in if k = protoKey then categoryCounts
         else setProperty categoryCounts k
                ((case map_of categoryCounts k of None \<Rightarrow> 0 | Some n \<Rightarrow> n) + 1))"

definition countCategories :: "row list \<Rightarrow> jsstring \<Rightarrow> nat object" where
  "countCategories data categoryCol =
     foldl (\<lambda>categoryCounts r. countCategory categoryCounts (getField r categoryCol)) [] data"

text \<open>
  \<open>.sort((a, b) => b[1] - a[1])\<close>: the sort is stable and puts the larger count first.
\<close>

definition sortByCountDesc :: "(jsstring \<times> nat) list \<Rightarrow> (jsstring \<times> nat) list" where
  "sortByCountDesc entries = sort_key (\<lambda>(cat, n). - int n) entries"

section \<open>The stats aggregator\<close>

text \<open>An entry \<open>{ category, count }\<close> of the result is the pair \<open>(category, count)\<close>.\<close>

definition getCategoryStats :: "row list \<Rightarrow> (jsstring \<times> nat) list" where
  "getCategoryStats data =
     map (\<lambda>(category, count). (category, count))
       (sortByCountDesc (Object_entries (countCategories data limitReasonKey)))"

section \<open>The paginator\<close>

text \<open>The sentinel category (U+5176 U+4ED6 U+6982 U+5FF5).\<close>

definition otherConcept :: jsstring where
  "otherConcept = [0x5176, 0x4ED6, 0x6982, 0x5FF5]"

definition sortedCategoriesOf :: "nat object \<Rightarrow> jsstring list" where
  "sortedCategoriesOf categoryCounts =
     (let sortedCategories =
            map fst (sortByCountDesc
              (filter (\<lambda>(cat, n). cat \<noteq> otherConcept) (Object_entries categoryCounts)))
      in if (case map_of categoryCounts otherConcept of None \<Rightarrow> False | Some n \<Rightarrow> n \<noteq> 0)
         then sortedCategories @ [otherConcept]
         else sortedCategories)"

text \<open>
  One round of \<open>sortedCategories.forEach\<close>, on the pair of \<open>reorderedData\<close> and
  \<open>otherConceptData\<close>. \<open>row[categoryCol] === cat\<close> compares a cell with a string and
  holds for no cell that is not a string.
\<close>

definition reorderStep ::
  "row list \<Rightarrow> jsstring \<Rightarrow> row list \<times> row list \<Rightarrow> jsstring \<Rightarrow> row list \<times> row list" where
  "reorderStep data categoryCol acc cat =
     (let catData = filter (\<lambda>r. getField r categoryCol = Str cat) data
      in if cat = otherConcept then (fst acc, snd acc @ catData)
         else (fst acc @ catData, snd acc))"

definition reorderData :: "row list \<Rightarrow> jsstring \<Rightarrow> jsstring list \<Rightarrow> row list" where
  "reorderData data categoryCol sortedCategories =
     (let acc = foldl (reorderStep data categoryCol) ([], []) sortedCategories
      in fst acc @ snd acc)"

text \<open>\<open>xs.slice(i, j)\<close> for \<open>0 \<le> i \<le> j\<close>.\<close>

definition slice :: "'a list \<Rightarrow> nat \<Rightarrow> nat \<Rightarrow> 'a list" where
  "slice xs i j = take (j - i) (drop i xs)"

text \<open>
  \<open>maxConstraint\<close> is a number as \<open>parseInt\<close> returns it: the upload handler passes
  \<open>parseInt\<close> of a form field, which is an integer, an infinity (for a numeral too
  long for a double) or \<open>NaN\<close> (for a field that does not start with a numeral); the
  command line leaves the default 33. \<open>x > y\<close> and \<open>x <= y\<close>, for an integer \<open>x\<close>, are
  both false when \<open>y\<close> is \<open>NaN\<close>.
\<close>

datatype number = Finite int | PosInfinity | NegInfinity | NaN

fun greaterThan :: "int \<Rightarrow> number \<Rightarrow> bool" where
  "greaterThan x (Finite m) = (x > m)"
| "greaterThan x PosInfinity = False"
| "greaterThan x NegInfinity = True"
| "greaterThan x NaN = False"

fun lessEq :: "int \<Rightarrow> number \<Rightarrow> bool" where
  "lessEq x (Finite m) = (x \<le> m)"
| "lessEq x PosInfinity = True"
| "lessEq x NegInfinity = False"
| "lessEq x NaN = False"

text \<open>
  The inner loop \<open>while (j < reorderedData.length)\<close>: it returns the value of \<open>j\<close> at
  which it stops.
\<close>

function extendPage ::
  "row list \<Rightarrow> jsstring \<Rightarrow> number \<Rightarrow> nat \<Rightarrow> cell set \<Rightarrow> nat \<Rightarrow> nat \<Rightarrow> nat" where
  "extendPage reorderedData categoryCol maxConstraint j categories categoryCount itemCount =
     (if j < length reorderedData then
        let currentCategory = getField (reorderedData ! j) categoryCol;
            isNew = (currentCategory \<notin> categories);
            categories' = (if isNew then insert currentCategory categories else categories);
            categoryCount' = (if isNew then categoryCount + 1 else categoryCount);
            itemCount' = itemCount + 1
        in if greaterThan (int categoryCount' * 2 + int itemCount') maxConstraint then j
           else extendPage reorderedData categoryCol maxConstraint (j + 1)
                  categories' categoryCount' itemCount'
      else j)"
  by pat_completeness auto
termination
  by (relation "measure (\<lambda>(rd, col, mc, j, cs, cc, ic). length rd - j)") auto

declare extendPage.simps [simp del]

lemma extendPage_ge:
  "j \<le> extendPage reorderedData categoryCol maxConstraint j categories categoryCount itemCount"
proof (induction reorderedData categoryCol maxConstraint j categories categoryCount itemCount
    rule: extendPage.induct)
  case (1 rd col mc j cs cc ic)
  show ?case
  proof (cases "j < length rd")
    case True
    note ih = 1[OF True refl refl refl refl refl]
    show ?thesis
      using True ih by (subst extendPage.simps) (auto simp: Let_def dest: Suc_leD)
  next
    case False
    then show ?thesis by (subst extendPage.simps) simp
  qed
qed

text \<open>The outer loop \<open>while (i < reorderedData.length)\<close>, which collects the pages.\<close>

function paginate :: "row list \<Rightarrow> jsstring \<Rightarrow> number \<Rightarrow> nat \<Rightarrow> row list list" where
  "paginate reorderedData categoryCol maxConstraint i =
     (if i < length reorderedData then
        let j = extendPage reorderedData categoryCol maxConstraint i {} 0 0;
            j' = (if j = i then i + 1 else j)
        in slice reorderedData i j' # paginate reorderedData categoryCol maxConstraint j'
      else [])"
  by pat_completeness auto
termination
proof (relation "measure (\<lambda>(rd, col, mc, i). length rd - i)")
  show "wf (measure (\<lambda>(rd, col, mc, i). length rd - i))" by simp
next
  fix reorderedData :: "row list" and categoryCol maxConstraint i j j'
  assume "i < length reorderedData"
    and j: "j = extendPage reorderedData categoryCol maxConstraint i {} 0 0"
    and j': "j' = (if j = i then i + 1 else j)"
  moreover have "i \<le> j" unfolding j by (rule extendPage_ge)
  ultimately show "((reorderedData, categoryCol, maxConstraint, j'),
      (reorderedData, categoryCol, maxConstraint, i))
    \<in> measure (\<lambda>(rd, col, mc, i). length rd - i)"
    by auto
qed

declare paginate.simps [simp del]

definition splitIntoPagesByCategoryPriority ::
  "row list \<Rightarrow> jsstring \<Rightarrow> number \<Rightarrow> row list list" where
  "splitIntoPagesByCategoryPriority data categoryCol maxConstraint =
     (let categoryCounts = countCategories data categoryCol;
          sortedCategories = sortedCategoriesOf categoryCounts;
          reorderedData = reorderData data categoryCol sortedCategories
      in paginate reorderedData categoryCol maxConstraint 0)"

section \<open>Notions used in the statements and proofs\<close>

text \<open>
  A string in which every whitespace character is a single space that no other
  whitespace character follows: what \<open>replace(/\s+/g, ' ')\<close> produces.
\<close>

fun singleSpaced :: "jsstring \<Rightarrow> bool" where
  "singleSpaced [] = True"
| "singleSpaced [c] = (isWhitespace c \<longrightarrow> c = SPACE)"
| "singleSpaced (c # d # cs) =
     ((isWhitespace c \<longrightarrow> c = SPACE \<and> \<not> isWhitespace d) \<and> singleSpaced (d # cs))"

text \<open>
  The distinct elements of a list in the order in which they first occur (\<open>remdups\<close>
  keeps the last occurrence of each element, so it is applied to the reversed list).
\<close>

definition firstSeen :: "'a list \<Rightarrow> 'a list" where
  "firstSeen xs = rev (remdups (rev xs))"

text \<open>
  The property keys the cells of a column are coerced to, row by row, and those of
  them that the counting object keeps a count for.
\<close>

definition categoryKeys :: "row list \<Rightarrow> jsstring \<Rightarrow> jsstring list" where
  "categoryKeys data categoryCol = map (\<lambda>r. toString (getField r categoryCol)) data"

definition countedKeys :: "row list \<Rightarrow> jsstring \<Rightarrow> jsstring list" where
  "countedKeys data categoryCol = filter (\<lambda>k. k \<noteq> protoKey) (categoryKeys data categoryCol)"

definition isStr :: "cell \<Rightarrow> bool" where
  "isStr v = (case v of Str s \<Rightarrow> True | _ \<Rightarrow> False)"

text \<open>The number of distinct values of the grouping field in a page.\<close>

definition distinctGroups :: "jsstring \<Rightarrow> row list \<Rightarrow> nat" where
  "distinctGroups categoryCol page = length (remdups (map (\<lambda>r. getField r categoryCol) page))"

text \<open>The categories other than the sentinel, in the order \<open>sortedCategories\<close> has them.\<close>

definition plainCategories :: "row list \<Rightarrow> jsstring \<Rightarrow> jsstring list" where
  "plainCategories data col =
     map fst (sortByCountDesc
       (filter (\<lambda>(cat, n). cat \<noteq> otherConcept) (Object_entries (countCategories data col))))"

section \<open>The examples of the specification\<close>

text \<open>
  The widths of the two ideographs U+4E2D U+6587, of \<open>abc\<close> and of U+4E2D followed by
  \<open>a\<close>; the stats of the reasons \<open>A\<close>, \<open>A\<close>, \<open>B\<close>; the two rows of the end-to-end
  example, which fit in one page at \<open>maxConstraint = 33\<close>.
\<close>

lemma width_examples:
  "calculateChineseLength (Str [0x4E2D, 0x6587]) = 4"
  "calculateChineseLength (Str (ascii ''abc'')) = 3"
  "calculateChineseLength (Str [0x4E2D, 0x61]) = 3"
  by code_simp+

lemma stats_example:
  "getCategoryStats
     [[(limitReasonKey, Str (ascii ''A''))], [(limitReasonKey, Str (ascii ''A''))],
      [(limitReasonKey, Str (ascii ''B''))]]
   = [(ascii ''A'', 2), (ascii ''B'', 1)]"
  by code_simp

lemma pages_example:
  "splitIntoPagesByCategoryPriority
     [[(limitReasonKey, Str (ascii ''B''))], [(limitReasonKey, Str (ascii ''A''))]]
     limitReasonKey (Finite 33)
   = [[[(limitReasonKey, Str (ascii ''B''))], [(limitReasonKey, Str (ascii ''A''))]]]"
  by code_simp

section \<open>Properties of the category-field trimmer\<close>

lemma width_Str: "calculateChineseLength (Str s) = int (length s) + int (length (filter isCJK s))"
  by (simp add: calculateChineseLength_def toString_def Let_def)

lemma width_nonneg: "0 \<le> calculateChineseLength (Str s)"
  by (simp add: width_Str)

lemma width_prefix: "prefix p s \<Longrightarrow> calculateChineseLength (Str p) \<le> calculateChineseLength (Str s)"
  by (auto simp: width_Str prefix_def)

lemma stripPlus_prefix: "prefix (stripPlus s) s"
proof (induction s rule: stripPlus.induct)
  case (1 result)
  show ?case
  proof (cases "endsWith result PLUS")
    case True
    then have "prefix (stripPlus (butlast result)) (butlast result)" using 1 by simp
    moreover have "prefix (butlast result) result" by (simp add: prefixeq_butlast)
    ultimately show ?thesis using True by (subst stripPlus.simps) (auto intro: prefix_order.trans)
  next
    case False
    then show ?thesis by (subst stripPlus.simps) simp
  qed
qed

lemma stripPlus_no_plus: "\<not> endsWith (stripPlus s) PLUS"
proof (induction s rule: stripPlus.induct)
  case (1 result)
  then show ?case by (subst stripPlus.simps) simp
qed

lemma stripPlus_id: "\<not> endsWith s PLUS \<Longrightarrow> stripPlus s = s"
  by (subst stripPlus.simps) simp

lemma truncateLoop_hit:
  assumes "calculateChineseLength (Str (take (Suc k) s)) \<le> m"
  shows "\<exists>n. truncateLoop s m (Suc k) = stripPlus (take n (take (Suc k) s))"
proof -
  let ?t = "take (Suc k) s"
  let ?i = "lastIndexOf ?t PLUS"
  show ?thesis
  proof (cases "?i \<noteq> - 1 \<and> ?i < int (length ?t) - 1")
    case True
    have "truncateLoop s m (Suc k) = stripPlus (take (nat ?i) ?t)"
      using assms True by (simp add: Let_def del: take_take)
    then show ?thesis by blast
  next
    case False
    have "truncateLoop s m (Suc k) = stripPlus ?t"
      using assms False by (auto simp add: Let_def simp del: take_take)
    moreover have "?t = take (Suc k) ?t" by simp
    ultimately show ?thesis by metis
  qed
qed

lemma truncateLoop_miss:
  "\<not> calculateChineseLength (Str (take (Suc k) s)) \<le> m \<Longrightarrow>
   truncateLoop s m (Suc k) = truncateLoop s m k"
  by (simp add: Let_def)

lemma truncateLoop_prefix: "prefix (truncateLoop s m k) s"
proof (induction k)
  case 0
  show ?case by simp
next
  case (Suc k)
  show ?case
  proof (cases "calculateChineseLength (Str (take (Suc k) s)) \<le> m")
    case True
    then obtain n where "truncateLoop s m (Suc k) = stripPlus (take n (take (Suc k) s))"
      using truncateLoop_hit by blast
    then show ?thesis
      by (metis prefix_order.trans stripPlus_prefix take_is_prefix)
  next
    case False
    then show ?thesis using Suc by (simp add: truncateLoop_miss del: truncateLoop.simps)
  qed
qed

lemma truncateLoop_no_plus: "\<not> endsWith (truncateLoop s m k) PLUS"
proof (induction k)
  case 0
  show ?case by (simp add: endsWith_def)
next
  case (Suc k)
  show ?case
  proof (cases "calculateChineseLength (Str (take (Suc k) s)) \<le> m")
    case True
    then obtain n where "truncateLoop s m (Suc k) = stripPlus (take n (take (Suc k) s))"
      using truncateLoop_hit by blast
    then show ?thesis by (simp only: stripPlus_no_plus not_False_eq_True)
  next
    case False
    then show ?thesis using Suc by (simp add: truncateLoop_miss del: truncateLoop.simps)
  qed
qed

lemma truncateLoop_width: "0 \<le> m \<Longrightarrow> calculateChineseLength (Str (truncateLoop s m k)) \<le> m"
proof (induction k)
  case 0
  then show ?case by (simp add: width_Str)
next
  case (Suc k)
  let ?t = "take (Suc k) s"
  show ?case
  proof (cases "calculateChineseLength (Str ?t) \<le> m")
    case True
    then obtain n where "truncateLoop s m (Suc k) = stripPlus (take n ?t)"
      using truncateLoop_hit by blast
    then have "prefix (truncateLoop s m (Suc k)) ?t"
      by (metis prefix_order.trans stripPlus_prefix take_is_prefix)
    then show ?thesis using True width_prefix by fastforce
  next
    case False
    then show ?thesis using Suc by (simp add: truncateLoop_miss del: truncateLoop.simps)
  qed
qed

lemma trim_prefix: "prefix (trimReasonCategoryField s m) s"
  by (simp add: trimReasonCategoryField_def stripPlus_prefix truncateLoop_prefix)

lemma singleSpaced_Cons_nonws:
  "\<not> isWhitespace c \<Longrightarrow> singleSpaced (c # cs) = singleSpaced cs"
  by (cases cs) auto

lemma collapse_hd:
  "s \<noteq> [] \<Longrightarrow> \<not> isWhitespace (hd s) \<Longrightarrow>
   collapseWhitespace s \<noteq> [] \<and> hd (collapseWhitespace s) = hd s"
  by (cases s) auto

lemma collapse_Nil_iff: "collapseWhitespace s = [] \<longleftrightarrow> s = []"
  by (cases s) auto

lemma dropWhile_id_hd: "xs = [] \<or> \<not> P (hd xs) \<Longrightarrow> dropWhile P xs = xs"
  by (cases xs) auto

lemma dropWhile_hd_nonws:
  "dropWhile isWhitespace cs \<noteq> [] \<Longrightarrow> \<not> isWhitespace (hd (dropWhile isWhitespace cs))"
  by (metis hd_dropWhile)

lemma singleSpaced_SPACE_Cons:
  "singleSpaced r \<Longrightarrow> (r \<noteq> [] \<Longrightarrow> \<not> isWhitespace (hd r)) \<Longrightarrow> singleSpaced (SPACE # r)"
  by (cases r) auto

lemma singleSpaced_collapse: "singleSpaced (collapseWhitespace s)"
proof (induction s rule: collapseWhitespace.induct)
  case 1
  show ?case by simp
next
  case (2 c cs)
  show ?case
  proof (cases "isWhitespace c")
    case True
    let ?r = "dropWhile isWhitespace cs"
    have ss: "singleSpaced (collapseWhitespace ?r)" using 2 True by simp
    have "collapseWhitespace ?r \<noteq> [] \<Longrightarrow> \<not> isWhitespace (hd (collapseWhitespace ?r))"
    proof -
      assume ne: "collapseWhitespace ?r \<noteq> []"
      then have "?r \<noteq> []" by (simp only: collapse_Nil_iff not_False_eq_True)
      then show ?thesis using collapse_hd[of ?r] dropWhile_hd_nonws[of cs] by metis
    qed
    then have "singleSpaced (SPACE # collapseWhitespace ?r)"
      using ss by (rule singleSpaced_SPACE_Cons[rotated]) 
    then show ?thesis using True by simp
  next
    case False
    then show ?thesis using 2 by (simp add: singleSpaced_Cons_nonws)
  qed
qed

lemma collapse_id: "singleSpaced s \<Longrightarrow> collapseWhitespace s = s"
proof (induction s rule: singleSpaced.induct)
  case 1
  show ?case by simp
next
  case (2 c)
  then show ?case by auto
next
  case (3 c d cs)
  then show ?case by (cases "isWhitespace c") auto
qed

lemma singleSpaced_prefix: "singleSpaced s \<Longrightarrow> prefix p s \<Longrightarrow> singleSpaced p"
proof (induction s arbitrary: p rule: singleSpaced.induct)
  case 1
  then show ?case by simp
next
  case (2 c)
  then show ?case by (cases p) (auto simp: prefix_Cons)
next
  case (3 c d cs)
  show ?case
  proof (cases p)
    case Nil
    then show ?thesis by simp
  next
    case (Cons a q)
    then have a: "a = c" and q: "prefix q (d # cs)" using 3(3) by auto
    have sq: "singleSpaced q" using 3(1)[OF _ q] 3(2) by simp
    show ?thesis
    proof (cases q)
      case Nil
      then show ?thesis using Cons a 3(2) by simp
    next
      case (Cons b q')
      then have "b = d" using q by simp
      then show ?thesis using \<open>p = a # q\<close> Cons a sq 3(2) by simp
    qed
  qed
qed

lemma trimStr_id:
  "(s \<noteq> [] \<Longrightarrow> \<not> isWhitespace (hd s) \<and> \<not> isWhitespace (last s)) \<Longrightarrow> trimStr s = s"
proof (cases s)
  case Nil
  then show ?thesis by (simp add: trimStr_def)
next
  case (Cons a as)
  assume "s \<noteq> [] \<Longrightarrow> \<not> isWhitespace (hd s) \<and> \<not> isWhitespace (last s)"
  then have h: "\<not> isWhitespace (hd s)" and l: "\<not> isWhitespace (last s)" using Cons by auto
  have 1: "dropWhile isWhitespace s = s" using h Cons by simp
  have "rev s \<noteq> []" and "hd (rev s) = last s" using Cons by (auto simp: hd_rev)
  then have "dropWhile isWhitespace (rev s) = rev s" using l by (metis dropWhile_id_hd)
  then show ?thesis using 1 by (simp add: trimStr_def)
qed

lemma trimStr_hd: "trimStr s \<noteq> [] \<Longrightarrow> \<not> isWhitespace (hd (trimStr s))"
proof -
  assume ne: "trimStr s \<noteq> []"
  let ?u = "dropWhile isWhitespace s"
  have "prefix (trimStr s) ?u"
    unfolding trimStr_def
    by (metis append_take_drop_id dropWhile_eq_drop prefixI rev_append rev_rev_ident)
  then obtain zs where "?u = trimStr s @ zs" unfolding prefix_def by blast
  then have "hd (trimStr s) = hd ?u" and "?u \<noteq> []" using ne by (metis hd_append2, metis append_is_Nil_conv)
  then show ?thesis using dropWhile_hd_nonws[of s] by (simp only:) blast
qed

lemma normalize_hd:
  "normalizeReasonCategory v \<noteq> [] \<Longrightarrow> \<not> isWhitespace (hd (normalizeReasonCategory v))"
proof -
  assume ne: "normalizeReasonCategory v \<noteq> []"
  then have nn: "v \<noteq> Null \<and> v \<noteq> Undefined"
    by (auto simp: normalizeReasonCategory_def)
  let ?t = "trimStr (toString v)"
  have eq: "normalizeReasonCategory v = collapseWhitespace ?t"
    using nn by (simp add: normalizeReasonCategory_def)
  then have "?t \<noteq> []" using ne by auto
  then show ?thesis using collapse_hd[of ?t] trimStr_hd[of "toString v"] eq by simp
qed

lemma normalize_singleSpaced: "singleSpaced (normalizeReasonCategory v)"
  by (simp add: normalizeReasonCategory_def singleSpaced_collapse)

lemma normalize_fix:
  assumes "prefix y (normalizeReasonCategory v)" and "y = [] \<or> \<not> isWhitespace (last y)"
  shows "normalizeReasonCategory (Str y) = y"
proof (cases "y = []")
  case True
  then show ?thesis by (simp add: normalizeReasonCategory_def toString_def trimStr_def)
next
  case False
  then have "normalizeReasonCategory v \<noteq> []" and "hd y = hd (normalizeReasonCategory v)"
    using assms(1) by (auto simp: prefix_def)
  then have "\<not> isWhitespace (hd y)" using normalize_hd by simp
  then have "trimStr y = y" using assms(2) False by (simp add: trimStr_id)
  moreover have "singleSpaced y"
    using singleSpaced_prefix[OF normalize_singleSpaced assms(1)] .
  ultimately show ?thesis
    by (simp add: normalizeReasonCategory_def toString_def collapse_id)
qed

lemma trim_no_plus: "\<not> endsWith (trimReasonCategoryField s m) PLUS"
  by (simp add: trimReasonCategoryField_def stripPlus_no_plus truncateLoop_no_plus)

lemma trim_width_le:
  assumes "0 \<le> m"
  shows "calculateChineseLength (Str (trimReasonCategoryField s m)) \<le> m"
proof (cases "calculateChineseLength (Str s) \<le> m")
  case True
  have "calculateChineseLength (Str (stripPlus s)) \<le> calculateChineseLength (Str s)"
    by (rule width_prefix) (rule stripPlus_prefix)
  then show ?thesis using True by (simp add: trimReasonCategoryField_def)
next
  case False
  then show ?thesis using assms by (simp add: trimReasonCategoryField_def truncateLoop_width)
qed

text \<open>\<open>trimReasonCategoryField\<close> alone is idempotent.\<close>

lemma trim_fix:
  "0 \<le> m \<Longrightarrow>
   trimReasonCategoryField (trimReasonCategoryField s m) m = trimReasonCategoryField s m"
  using trim_width_le[of m s] trim_no_plus[of s m]
  by (simp add: trimReasonCategoryField_def[of "trimReasonCategoryField s m"] stripPlus_id)

lemma getField_setProperty: "getField (setProperty r k v) k = v"
  by (induction r) (auto simp: getField_def)

text \<open>
  C5: for every string and every width budget, the string that
  \<open>trimReasonCategoryField\<close> returns does not end with the character \<open>+\<close>.
\<close>

theorem trim_no_trailing_plus: "\<not> endsWith (trimReasonCategoryField s m) PLUS"
  by (simp add: trimReasonCategoryField_def stripPlus_no_plus truncateLoop_no_plus)

theorem trim_no_trailing_plus_witness:
  "\<not> endsWith (trimReasonCategoryField [0x61, 0x2B, 0x62, 0x2B, 0x2B] 36) PLUS"
  using trim_no_trailing_plus [of "[0x61, 0x2B, 0x62, 0x2B, 0x2B]" 36] by simp




text \<open>
  C10: in every row that \<open>processReasonCategoryField\<close> returns, the category field is
  a string, and it is a prefix of what \<open>normalizeReasonCategory\<close> returns for the
  category field of the input row at the same position.
\<close>

theorem processed_category_is_prefix:
  "list_all2
     (\<lambda>r r'. \<exists>t. getField r' limitReasonCategoryKey = Str t
               \<and> prefix t (normalizeReasonCategory (getField r limitReasonCategoryKey)))
     data (processReasonCategoryField data)"
  by (simp add: processReasonCategoryField_def list_all2_map2 list_all2_same
      getField_setProperty processCategoryCell_def trim_prefix)

theorem processed_category_is_prefix_witness:
  "list_all2
     (\<lambda>r r'. \<exists>t. getField r' limitReasonCategoryKey = Str t
               \<and> prefix t (normalizeReasonCategory (getField r limitReasonCategoryKey)))
     [[(limitReasonCategoryKey, Str [0x20, 0x61, 0x20, 0x20, 0x2B, 0x62, 0x2B])]]
     (processReasonCategoryField
        [[(limitReasonCategoryKey, Str [0x20, 0x61, 0x20, 0x20, 0x2B, 0x62, 0x2B])]])"
  using processed_category_is_prefix
    [of "[[(limitReasonCategoryKey, Str [0x20, 0x61, 0x20, 0x20, 0x2B, 0x62, 0x2B])]]"]
  by simp

text \<open>
  C4, as amended: for every raw cell value \<open>x\<close> whose trimmed value (normalization
  followed by \<open>trimReasonCategoryField\<close> at the width budget 36) does not end with a
  whitespace character, trimming the trimmed value again returns it unchanged.
\<close>

theorem trim_idempotent_without_trailing_space:
  assumes "processCategoryCell x = [] \<or> \<not> isWhitespace (last (processCategoryCell x))"
  shows "processCategoryCell (Str (processCategoryCell x)) = processCategoryCell x"
proof -
  have "prefix (processCategoryCell x) (normalizeReasonCategory x)"
    by (simp add: processCategoryCell_def trim_prefix)
  then have "normalizeReasonCategory (Str (processCategoryCell x)) = processCategoryCell x"
    using assms normalize_fix by blast
  then show ?thesis
    using trim_fix[of 36 "normalizeReasonCategory x"] by (simp add: processCategoryCell_def)
qed

theorem trim_idempotent_without_trailing_space_witness:
  "\<not> isWhitespace (last (processCategoryCell (Str [0x20, 0x61, 0x2B, 0x62, 0x2B])))
   \<and> processCategoryCell (Str (processCategoryCell (Str [0x20, 0x61, 0x2B, 0x62, 0x2B])))
     = processCategoryCell (Str [0x20, 0x61, 0x2B, 0x62, 0x2B])"
proof -
  have e: "processCategoryCell (Str [0x20, 0x61, 0x2B, 0x62, 0x2B]) = [0x61, 0x2B, 0x62]"
    by code_simp
  have h: "\<not> isWhitespace (last [0x61, 0x2B, 0x62])"
    by (simp add: isWhitespace_def)
  show ?thesis
    using trim_idempotent_without_trailing_space [of "Str [0x20, 0x61, 0x2B, 0x62, 0x2B]"] e h
    by simp
qed

text \<open>
  The claim as stated fails where stripping a trailing \<open>+\<close> uncovers a space: the cell
  \<open>a +\<close> is trimmed to \<open>a\<close> followed by a space, and that to \<open>a\<close>.
\<close>

theorem trim_not_idempotent_counterexample:
  "processCategoryCell (Str (processCategoryCell (Str [0x61, 0x20, 0x2B])))
   \<noteq> processCategoryCell (Str [0x61, 0x20, 0x2B])"
  by code_simp

section \<open>Properties of the column resolver\<close>

text \<open>\<open>includesStr\<close> is the substring test.\<close>

lemma includesStr_iff: "includesStr s t \<longleftrightarrow> (\<exists>ps ss. s = ps @ t @ ss)"
proof (induction s)
  case Nil
  show ?case by auto
next
  case (Cons c cs)
  show ?case
  proof
    assume "includesStr (c # cs) t"
    then consider "prefix t (c # cs)" | "includesStr cs t" by auto
    then show "\<exists>ps ss. c # cs = ps @ t @ ss"
    proof cases
      case 1
      then obtain ss where "c # cs = [] @ t @ ss" by (auto simp: prefix_def)
      then show ?thesis by blast
    next
      case 2
      then obtain ps ss where "cs = ps @ t @ ss" using Cons by blast
      then have "c # cs = (c # ps) @ t @ ss" by simp
      then show ?thesis by blast
    qed
  next
    assume "\<exists>ps ss. c # cs = ps @ t @ ss"
    then obtain ps ss where e: "c # cs = ps @ t @ ss" by blast
    show "includesStr (c # cs) t"
    proof (cases ps)
      case Nil
      then have "prefix t (c # cs)" using e by (simp add: prefix_def)
      then show ?thesis by simp
    next
      case (Cons a ps')
      then have "cs = ps' @ t @ ss" using e by simp
      then have "includesStr cs t" using Cons.IH by blast
      then show ?thesis by simp
    qed
  qed
qed

lemma find_None_iff': "find P xs = None \<longleftrightarrow> (\<forall>x \<in> set xs. \<not> P x)"
  by (induction xs) auto

text \<open>
  C8: \<open>findColumn\<close> returns the target name whenever the dataset is not empty and a
  key of its first row equals the target name exactly, whatever else the other keys
  match; it returns \<open>null\<close> when the dataset is empty or no key of the first row
  matches exactly, after trimming, or as a substring.
\<close>

theorem findColumn_exact_or_none:
  "(data \<noteq> [] \<and> columnName \<in> set (Object_keys (hd data))
      \<longrightarrow> findColumn data columnName = Some columnName)
   \<and> (data = [] \<or> (\<forall>col \<in> set (Object_keys (hd data)).
          col \<noteq> columnName \<and> trimStr col \<noteq> columnName \<and> \<not> includesStr col columnName)
      \<longrightarrow> findColumn data columnName = None)"
proof (intro conjI impI)
  assume "data \<noteq> [] \<and> columnName \<in> set (Object_keys (hd data))"
  then show "findColumn data columnName = Some columnName"
    by (simp add: findColumn_def Let_def)
next
  assume a: "data = [] \<or> (\<forall>col \<in> set (Object_keys (hd data)).
          col \<noteq> columnName \<and> trimStr col \<noteq> columnName \<and> \<not> includesStr col columnName)"
  show "findColumn data columnName = None"
  proof (cases "data = []")
    case True
    then show ?thesis by (simp add: findColumn_def)
  next
    case False
    then have n: "\<forall>col \<in> set (Object_keys (hd data)).
          col \<noteq> columnName \<and> trimStr col \<noteq> columnName \<and> \<not> includesStr col columnName"
      using a by simp
    then have "columnName \<notin> set (Object_keys (hd data))" by blast
    moreover have "find (\<lambda>col. trimStr col = columnName) (Object_keys (hd data)) = None"
      using n by (simp add: find_None_iff')
    moreover have "find (\<lambda>col. includesStr col columnName) (Object_keys (hd data)) = None"
      using n by (simp add: find_None_iff')
    ultimately show ?thesis using False by (simp add: findColumn_def Let_def)
  qed
qed

theorem findColumn_exact_or_none_witness:
  "findColumn [[([0x20, 0x41], Str []), ([0x41, 0x42], Str []), ([0x41], Str [])]] [0x41] = Some [0x41]
   \<and> findColumn [[([0x42, 0x41, 0x42], Str []), ([0x20, 0x43], Str [])]] [0x44] = None"
proof -
  have k1: "Object_keys [([0x20, 0x41], Str []), ([0x41, 0x42], Str []), ([0x41], Str [])]
      = [[0x20, 0x41], [0x41, 0x42], [0x41]]"
    by code_simp
  have k2: "Object_keys [([0x42, 0x41, 0x42], Str []), ([0x20, 0x43], Str [])]
      = [[0x42, 0x41, 0x42], [0x20, 0x43]]"
    by code_simp
  have t: "trimStr [0x42, 0x41, 0x42] \<noteq> [0x44]" "trimStr [0x20, 0x43] \<noteq> [0x44]"
    by code_simp+
  show ?thesis
    using findColumn_exact_or_none
        [of "[[([0x20, 0x41], Str []), ([0x41, 0x42], Str []), ([0x41], Str [])]]" "[0x41]"]
      findColumn_exact_or_none
        [of "[[([0x42, 0x41, 0x42], Str []), ([0x20, 0x43], Str [])]]" "[0x44]"]
    by (simp add: k1 k2 t)
qed

section \<open>Properties of the counting object and the stats aggregator\<close>

lemma firstSeen_snoc:
  "firstSeen (xs @ [x]) = (if x \<in> set xs then firstSeen xs else firstSeen xs @ [x])"
  by (simp add: firstSeen_def)

lemma firstSeen_Nil: "firstSeen [] = []"
  by (simp add: firstSeen_def)

lemma set_firstSeen: "set (firstSeen xs) = set xs"
  by (simp add: firstSeen_def)

lemma distinct_firstSeen: "distinct (firstSeen xs)"
  by (simp add: firstSeen_def)

lemma map_of_graph: "map_of (map (\<lambda>x. (x, f x)) xs) k = (if k \<in> set xs then Some (f k) else None)"
  by (induction xs) auto

lemma setProperty_graph_new:
  "k \<notin> set xs \<Longrightarrow> setProperty (map (\<lambda>x. (x, f x)) xs) k v = map (\<lambda>x. (x, f x)) xs @ [(k, v)]"
  by (induction xs) auto

lemma setProperty_graph_old:
  "distinct xs \<Longrightarrow> k \<in> set xs \<Longrightarrow>
   setProperty (map (\<lambda>x. (x, f x)) xs) k v = map (\<lambda>x. (x, if x = k then v else f x)) xs"
  by (induction xs) auto

lemma foldl_skip:
  "foldl (\<lambda>acc k. if k = z then acc else f acc k) acc ks = foldl f acc (filter (\<lambda>k. k \<noteq> z) ks)"
  by (induction ks arbitrary: acc) auto

lemma countCategories_foldl:
  "countCategories data col =
   foldl (\<lambda>cc k. setProperty cc k ((case map_of cc k of None \<Rightarrow> 0 | Some n \<Rightarrow> n) + 1)) []
     (countedKeys data col)"
proof -
  have "countCategories data col =
    foldl (\<lambda>cc k. if k = protoKey then cc
             else setProperty cc k ((case map_of cc k of None \<Rightarrow> 0 | Some n \<Rightarrow> n) + 1)) []
      (categoryKeys data col)"
    by (simp add: countCategories_def categoryKeys_def countCategory_def foldl_map Let_def)
  then show ?thesis by (simp only: foldl_skip countedKeys_def)
qed

lemma count_fold_graph:
  "foldl (\<lambda>cc k. setProperty cc k ((case map_of cc k of None \<Rightarrow> 0 | Some n \<Rightarrow> n) + 1)) [] ks =
   map (\<lambda>k. (k, count_list ks k)) (firstSeen ks)"
proof (induction ks rule: rev_induct)
  case Nil
  show ?case by (simp add: firstSeen_Nil)
next
  case (snoc k ks)
  show ?case
  proof (cases "k \<in> set ks")
    case True
    then have "k \<in> set (firstSeen ks)" by (simp add: set_firstSeen)
    then show ?thesis
      using snoc True
      by (simp add: firstSeen_snoc map_of_graph setProperty_graph_old distinct_firstSeen)
  next
    case False
    then have "k \<notin> set (firstSeen ks)" by (simp add: set_firstSeen)
    then show ?thesis
      using snoc False
      by (auto simp: firstSeen_snoc map_of_graph setProperty_graph_new set_firstSeen)
  qed
qed

lemma countCategories_graph:
  "countCategories data col =
   map (\<lambda>k. (k, count_list (countedKeys data col) k)) (firstSeen (countedKeys data col))"
  by (simp only: countCategories_foldl count_fold_graph)

lemma countedKeys_plain:
  "\<forall>r \<in> set data. \<not> inheritedKey (toString (getField r col)) \<Longrightarrow>
   countedKeys data col = categoryKeys data col"
  by (simp add: countedKeys_def categoryKeys_def inheritedKey_def)

lemma mset_ownPropertyOrder: "mset (ownPropertyOrder key xs) = mset xs"
  by (simp add: ownPropertyOrder_def)

lemma distinct_ownPropertyOrder: "distinct (ownPropertyOrder key xs) = distinct xs"
  by (rule mset_eq_imp_distinct_iff) (rule mset_ownPropertyOrder)

lemma set_ownPropertyOrder: "set (ownPropertyOrder key xs) = set xs"
  by (metis mset_ownPropertyOrder set_mset_mset)

lemma insort_key_map:
  "insort_key f (g x) (map g xs) = map g (insort_key (\<lambda>y. f (g y)) x xs)"
  by (induction xs) auto

lemma sort_key_map: "sort_key f (map g xs) = map g (sort_key (\<lambda>y. f (g y)) xs)"
  by (induction xs) (auto simp: insort_key_map)

lemma ownPropertyOrder_map:
  "ownPropertyOrder key (map g xs) = map g (ownPropertyOrder (\<lambda>y. key (g y)) xs)"
  by (simp add: ownPropertyOrder_def filter_map sort_key_map comp_def)

lemma ownPropertyOrder_no_index:
  "\<forall>x \<in> set xs. \<not> isArrayIndex (key x) \<Longrightarrow> ownPropertyOrder key xs = xs"
  by (simp add: ownPropertyOrder_def)

lemma distinct_map_sort_key: "distinct (map g (sort_key f xs)) = distinct (map g xs)"
proof -
  have "mset (map g (sort_key f xs)) = mset (map g xs)" by simp
  then show ?thesis by (rule mset_eq_imp_distinct_iff)
qed

lemma getCategoryStats_eq:
  "getCategoryStats data =
   sortByCountDesc (map (\<lambda>k. (k, count_list (countedKeys data limitReasonKey) k))
     (ownPropertyOrder (\<lambda>k. k) (firstSeen (countedKeys data limitReasonKey))))"
  by (simp add: getCategoryStats_def Object_entries_def countCategories_graph
      ownPropertyOrder_map comp_def)

lemma mset_getCategoryStats:
  "mset (getCategoryStats data) = mset (countCategories data limitReasonKey)"
  by (simp add: getCategoryStats_def Object_entries_def sortByCountDesc_def mset_ownPropertyOrder)

lemma sum_countCategory:
  "toString c \<noteq> protoKey \<Longrightarrow>
   sum_list (map snd (countCategory cc c)) = Suc (sum_list (map snd cc))"
  unfolding countCategory_def Let_def
  by (induction cc) auto

lemma countCategory_proto: "toString c = protoKey \<Longrightarrow> countCategory cc c = cc"
  by (simp add: countCategory_def)

lemma sum_countCategories_aux:
  "sum_list (map snd (foldl (\<lambda>cc r. countCategory cc (getField r col)) acc data)) =
   sum_list (map snd acc)
   + length (filter (\<lambda>r. toString (getField r col) \<noteq> protoKey) data)"
proof (induction data arbitrary: acc)
  case Nil
  show ?case by simp
next
  case (Cons r data)
  show ?case
  proof (cases "toString (getField r col) = protoKey")
    case True
    then show ?thesis using Cons[of acc] by (simp add: countCategory_proto)
  next
    case False
    then show ?thesis
      using Cons[of "countCategory acc (getField r col)"] by (simp add: sum_countCategory)
  qed
qed

text \<open>
  The counts add up to the number of rows whose category is not \<open>__proto__\<close>.
\<close>

lemma stats_counts_sum_counted:
  "sum_list (map snd (getCategoryStats data)) =
   length (filter (\<lambda>r. toString (getField r limitReasonKey) \<noteq> protoKey) data)"
proof -
  have "sum_list (map snd (getCategoryStats data)) = sum_mset (image_mset snd (mset (getCategoryStats data)))"
    by (metis mset_map sum_mset_sum_list)
  also have "\<dots> = sum_list (map snd (countCategories data limitReasonKey))"
    by (metis mset_getCategoryStats mset_map sum_mset_sum_list)
  also have "\<dots> = length (filter (\<lambda>r. toString (getField r limitReasonKey) \<noteq> protoKey) data)"
    using sum_countCategories_aux[of limitReasonKey "[]" data] by (simp add: countCategories_def)
  finally show ?thesis .
qed

lemma stats_counts_sum_plain:
  "\<forall>r \<in> set data. \<not> inheritedKey (toString (getField r limitReasonKey)) \<Longrightarrow>
   sum_list (map snd (getCategoryStats data)) = length data"
  by (simp add: stats_counts_sum_counted inheritedKey_def)

text \<open>
  C9 says that the counts add up to the number of rows. The code breaks this on a
  row whose reason is \<open>__proto__\<close>: the row is not counted, and the counts of the two
  rows below add up to 1.
\<close>

theorem stats_skip_proto_category:
  "sum_list (map snd (getCategoryStats
      [[(limitReasonKey, Str [0x41])], [(limitReasonKey, Str (ascii ''__proto__''))]])) = 1
   \<and> length [[(limitReasonKey, Str [0x41])], [(limitReasonKey, Str (ascii ''__proto__''))]] = 2"
  by code_simp

text \<open>
  C7, as amended: for every dataset in which no reason cell is coerced to the name of
  a property of \<open>Object.prototype\<close>, \<open>getCategoryStats\<close> returns the (category, count)
  frequency pairs of the property keys of the reason cells, sorted by count
  descending; pairs with equal counts appear in the order in which \<open>Object.entries\<close>
  lists their keys: the array-index keys first, in ascending numeric order, then the
  other keys in the order in which they first occur in the rows.
\<close>

theorem stats_order:
  fixes data :: "row list"
  defines "keys \<equiv> categoryKeys data limitReasonKey"
  defines "stats \<equiv> getCategoryStats data"
  assumes plain: "\<forall>r \<in> set data. \<not> inheritedKey (toString (getField r limitReasonKey))"
  shows "sorted_wrt (\<lambda>p q. snd q \<le> snd p) stats
    \<and> distinct (map fst stats)
    \<and> set stats = (\<lambda>k. (k, count_list keys k)) ` set keys
    \<and> (\<forall>n. map fst (filter (\<lambda>p. snd p = n) stats)
            = filter (\<lambda>k. count_list keys k = n) (ownPropertyOrder (\<lambda>k. k) (firstSeen keys)))"
proof -
  let ?E = "map (\<lambda>k. (k, count_list keys k)) (ownPropertyOrder (\<lambda>k. k) (firstSeen keys))"
  let ?f = "\<lambda>(cat :: jsstring, n :: nat). - int n"
  have ck: "countedKeys data limitReasonKey = keys"
    unfolding keys_def using plain by (rule countedKeys_plain)
  have st: "stats = sort_key ?f ?E"
    unfolding stats_def by (simp add: getCategoryStats_eq sortByCountDesc_def ck)
  have "sorted (map ?f stats)" unfolding st by (rule sorted_sort_key)
  then have a: "sorted_wrt (\<lambda>p q. snd q \<le> snd p) stats"
    by (simp add: sorted_map sorted_wrt_iff_nth_less split_def)  
  have "map fst ?E = ownPropertyOrder (\<lambda>k. k) (firstSeen keys)"
    by (simp add: comp_def)
  then have dE: "distinct (map fst ?E)"
    by (simp only: distinct_ownPropertyOrder distinct_firstSeen)
  have b: "distinct (map fst stats)"
    unfolding st using dE by (simp only: distinct_map_sort_key)
  have c: "set stats = (\<lambda>k. (k, count_list keys k)) ` set keys"
    unfolding st by (simp add: set_ownPropertyOrder set_firstSeen)
  have d: "map fst (filter (\<lambda>p. snd p = n) stats)
            = filter (\<lambda>k. count_list keys k = n) (ownPropertyOrder (\<lambda>k. k) (firstSeen keys))" for n
  proof -
    have "filter (\<lambda>p. snd p = n) stats = filter (\<lambda>p. ?f p = - int n) stats"
      by (rule filter_cong) (auto simp: split_def)
    also have "\<dots> = filter (\<lambda>p. ?f p = - int n) ?E" unfolding st by (rule sort_key_stable)
    also have "\<dots> = filter (\<lambda>p. snd p = n) ?E"
      by (rule filter_cong) (auto simp: split_def)
    finally show ?thesis by (simp add: filter_map comp_def)
  qed
  show ?thesis using a b c d by blast
qed

text \<open>
  The reasons \<open>b\<close>, \<open>2\<close>, \<open>a\<close>, \<open>1\<close>, \<open>a\<close>: of the three categories that occur once,
  the result lists \<open>1\<close> and \<open>2\<close> before \<open>b\<close>.
\<close>

theorem stats_order_witness:
  "list_all (\<lambda>r. \<not> inheritedKey (toString (getField r limitReasonKey)))
     [[(limitReasonKey, Str [0x62])], [(limitReasonKey, Str [0x32])],
      [(limitReasonKey, Str [0x61])], [(limitReasonKey, Str [0x31])],
      [(limitReasonKey, Str [0x61])]]
   \<and> getCategoryStats
     [[(limitReasonKey, Str [0x62])], [(limitReasonKey, Str [0x32])],
      [(limitReasonKey, Str [0x61])], [(limitReasonKey, Str [0x31])],
      [(limitReasonKey, Str [0x61])]]
     = [([0x61], 2), ([0x31], 1), ([0x32], 1), ([0x62], 1)]
   \<and> map fst (filter (\<lambda>p. snd p = 1) (getCategoryStats
     [[(limitReasonKey, Str [0x62])], [(limitReasonKey, Str [0x32])],
      [(limitReasonKey, Str [0x61])], [(limitReasonKey, Str [0x31])],
      [(limitReasonKey, Str [0x61])]]))
     = [[0x31], [0x32], [0x62]]"
proof -
  have h: "\<forall>r \<in> set
     [[(limitReasonKey, Str [0x62])], [(limitReasonKey, Str [0x32])],
      [(limitReasonKey, Str [0x61])], [(limitReasonKey, Str [0x31])],
      [(limitReasonKey, Str [0x61])]].
      \<not> inheritedKey (toString (getField r limitReasonKey))"
    by code_simp
  have k: "filter (\<lambda>k. count_list (categoryKeys
     [[(limitReasonKey, Str [0x62])], [(limitReasonKey, Str [0x32])],
      [(limitReasonKey, Str [0x61])], [(limitReasonKey, Str [0x31])],
      [(limitReasonKey, Str [0x61])]] limitReasonKey) k = 1)
       (ownPropertyOrder (\<lambda>k. k) (firstSeen (categoryKeys
     [[(limitReasonKey, Str [0x62])], [(limitReasonKey, Str [0x32])],
      [(limitReasonKey, Str [0x61])], [(limitReasonKey, Str [0x31])],
      [(limitReasonKey, Str [0x61])]] limitReasonKey))) = [[0x31], [0x32], [0x62]]"
    by code_simp
  have e: "getCategoryStats
     [[(limitReasonKey, Str [0x62])], [(limitReasonKey, Str [0x32])],
      [(limitReasonKey, Str [0x61])], [(limitReasonKey, Str [0x31])],
      [(limitReasonKey, Str [0x61])]]
     = [([0x61], 2), ([0x31], 1), ([0x32], 1), ([0x62], 1)]"
    by code_simp
  have "map fst (filter (\<lambda>p. snd p = 1) (getCategoryStats
     [[(limitReasonKey, Str [0x62])], [(limitReasonKey, Str [0x32])],
      [(limitReasonKey, Str [0x61])], [(limitReasonKey, Str [0x31])],
      [(limitReasonKey, Str [0x61])]]))
     = [[0x31], [0x32], [0x62]]"
    using stats_order[OF h] by (simp only: k)
  then show ?thesis
    using h e by (simp only: list_all_iff simp_thms)
qed

text \<open>
  The claim as stated, equal counts in order of first occurrence, fails on an
  array-index key: of the reasons \<open>b\<close> and \<open>1\<close>, in this order and once each, the
  result lists \<open>1\<close> first.
\<close>

theorem stats_ties_counterexample:
  "getCategoryStats [[(limitReasonKey, Str [0x62])], [(limitReasonKey, Str [0x31])]]
     = [([0x31], 1), ([0x62], 1)]
   \<and> firstSeen (categoryKeys
        [[(limitReasonKey, Str [0x62])], [(limitReasonKey, Str [0x31])]] limitReasonKey)
     = [[0x62], [0x31]]
   \<and> map fst (filter (\<lambda>p. snd p = 1)
        (getCategoryStats [[(limitReasonKey, Str [0x62])], [(limitReasonKey, Str [0x31])]]))
     \<noteq> filter
         (\<lambda>k. count_list (categoryKeys
            [[(limitReasonKey, Str [0x62])], [(limitReasonKey, Str [0x31])]] limitReasonKey) k = 1)
         (firstSeen (categoryKeys
            [[(limitReasonKey, Str [0x62])], [(limitReasonKey, Str [0x31])]] limitReasonKey))"
  by code_simp

section \<open>Properties of the paginator\<close>

lemma slice_Suc:
  "i \<le> j \<Longrightarrow> j < length xs \<Longrightarrow> slice xs i (Suc j) = slice xs i j @ [xs ! j]"
proof -
  assume a: "i \<le> j" "j < length xs"
  then have "Suc j - i = Suc (j - i)" by simp
  moreover have "j - i < length (drop i xs)" using a by simp
  moreover have "drop i xs ! (j - i) = xs ! j" using a by simp
  ultimately show ?thesis unfolding slice_def by (simp add: take_Suc_conv_app_nth)
qed

lemma slice_same: "slice xs i i = []"
  by (simp add: slice_def)

lemma length_slice: "i \<le> j \<Longrightarrow> j \<le> length xs \<Longrightarrow> length (slice xs i j) = j - i"
  by (simp add: slice_def)

lemma distinctGroups_card:
  "distinctGroups col page = card ((\<lambda>r. getField r col) ` set page)"
  unfolding distinctGroups_def by (metis List.card_set set_map)

lemma greaterThan_iff: "mc \<noteq> NaN \<Longrightarrow> greaterThan x mc \<longleftrightarrow> \<not> lessEq x mc"
  by (cases mc) auto

lemma extendPage_spec:
  assumes "mc \<noteq> NaN" "i \<le> j" "j \<le> length rd"
    and "categories = (\<lambda>r. getField r col) ` set (slice rd i j)"
    and "categoryCount = card categories"
    and "itemCount = j - i"
    and "i < j \<longrightarrow> lessEq (2 * int categoryCount + int itemCount) mc"
  shows "extendPage rd col mc j categories categoryCount itemCount \<le> length rd \<and>
         (i < extendPage rd col mc j categories categoryCount itemCount \<longrightarrow>
            lessEq (2 * int (distinctGroups col (slice rd i
                  (extendPage rd col mc j categories categoryCount itemCount)))
              + int (extendPage rd col mc j categories categoryCount itemCount - i)) mc)"
  using assms
proof (induction rd col mc j categories categoryCount itemCount rule: extendPage.induct)
  case (1 rd col mc j cs cc ic)
  show ?case
  proof (cases "j < length rd")
    case False
    then have e: "extendPage rd col mc j cs cc ic = j" by (subst extendPage.simps) simp
    show ?thesis unfolding e using 1(2-) by (simp add: distinctGroups_card)
  next
    case True
    let ?cur = "getField (rd ! j) col"
    let ?cs' = "if ?cur \<notin> cs then insert ?cur cs else cs"
    let ?cc' = "if ?cur \<notin> cs then cc + 1 else cc"
    have fin: "finite cs" using 1(5) by simp
    have cs': "?cs' = (\<lambda>r. getField r col) ` set (slice rd i (Suc j))"
      using 1(3,5) True by (auto simp: slice_Suc)
    have cc': "?cc' = card ?cs'" using 1(6) fin by simp
    show ?thesis
    proof (cases "greaterThan (int ?cc' * 2 + int (ic + 1)) mc")
      case over: True
      have e: "extendPage rd col mc j cs cc ic = j"
        using True over by (subst extendPage.simps) (simp add: Let_def)
      show ?thesis unfolding e using 1(2-) by (simp add: distinctGroups_card)
    next
      case under: False
      have le: "lessEq (2 * int ?cc' + int (ic + 1)) mc"
        using under greaterThan_iff[OF 1(2)] by (simp add: mult.commute)
      have e: "extendPage rd col mc j cs cc ic = extendPage rd col mc (j + 1) ?cs' ?cc' (ic + 1)"
        using True under by (subst extendPage.simps) (simp add: Let_def)
      have "extendPage rd col mc (j + 1) ?cs' ?cc' (ic + 1) \<le> length rd \<and>
         (i < extendPage rd col mc (j + 1) ?cs' ?cc' (ic + 1) \<longrightarrow>
            lessEq (2 * int (distinctGroups col (slice rd i
                  (extendPage rd col mc (j + 1) ?cs' ?cc' (ic + 1))))
              + int (extendPage rd col mc (j + 1) ?cs' ?cc' (ic + 1) - i)) mc)"
      proof (rule 1(1)[OF True refl refl refl refl refl])
        show "\<not> greaterThan (int ?cc' * 2 + int (ic + 1)) mc" using under by simp
        show "mc \<noteq> NaN" by (rule 1(2))
        show "i \<le> j + 1" using 1(3) by simp
        show "j + 1 \<le> length rd" using True by simp
        show "?cs' = (\<lambda>r. getField r col) ` set (slice rd i (j + 1))" using cs' by simp
        show "?cc' = card ?cs'" by (rule cc')
        show "ic + 1 = j + 1 - i" using 1(3,7) by simp
        show "i < j + 1 \<longrightarrow> lessEq (2 * int ?cc' + int (ic + 1)) mc" using le by simp
      qed
      then show ?thesis unfolding e .
    qed
  qed
qed

lemma extendPage_start:
  assumes "mc \<noteq> NaN" "i \<le> length rd"
  shows "extendPage rd col mc i {} 0 0 \<le> length rd \<and>
   (i < extendPage rd col mc i {} 0 0 \<longrightarrow>
      lessEq (2 * int (distinctGroups col (slice rd i (extendPage rd col mc i {} 0 0)))
        + int (extendPage rd col mc i {} 0 0 - i)) mc)"
  by (rule extendPage_spec) (simp_all add: assms slice_same)

lemma paginate_pages:
  "mc \<noteq> NaN \<Longrightarrow> p \<in> set (paginate rd col mc i) \<Longrightarrow>
   lessEq (2 * int (distinctGroups col p) + int (length p)) mc \<or> length p = 1"
proof (induction rd col mc i rule: paginate.induct)
  case (1 rd col mc i)
  show ?case
  proof (cases "i < length rd")
    case False
    then show ?thesis using 1(3) by (subst (asm) paginate.simps) simp
  next
    case True
    let ?j = "extendPage rd col mc i {} 0 0"
    let ?j' = "if ?j = i then i + 1 else ?j"
    have sp: "?j \<le> length rd \<and>
      (i < ?j \<longrightarrow> lessEq (2 * int (distinctGroups col (slice rd i ?j)) + int (?j - i)) mc)"
      using True 1(2) by (intro extendPage_start) simp_all
    have ge: "i \<le> ?j" by (rule extendPage_ge)
    have "paginate rd col mc i = slice rd i ?j' # paginate rd col mc ?j'"
      using True by (subst paginate.simps) (simp add: Let_def)
    then consider "p = slice rd i ?j'" | "p \<in> set (paginate rd col mc ?j')"
      using 1(3) by auto
    then show ?thesis
    proof cases
      case 1
      show ?thesis
      proof (cases "?j = i")
        case same: True
        then have "length p = 1" using 1 True by (simp add: slice_def)
        then show ?thesis by simp
      next
        case False
        then have "i < ?j" using ge by simp
        moreover have "length (slice rd i ?j) = ?j - i" using sp ge by (simp add: length_slice)
        ultimately show ?thesis using sp 1 False by simp
      qed
    next
      case 2
      then show ?thesis using "1.IH"[OF True refl refl] "1.prems"(1) by simp
    qed
  qed
qed

text \<open>
  When \<open>maxConstraint\<close> is \<open>NaN\<close> the test of the inner loop never holds: the loop
  runs to the end of the rows, and all rows are in one page.
\<close>

lemma extendPage_NaN:
  "j \<le> length rd \<Longrightarrow> extendPage rd col NaN j categories categoryCount itemCount = length rd"
proof (induction rd col NaN j categories categoryCount itemCount rule: extendPage.induct)
  case (1 rd col j cs cc ic)
  show ?case
  proof (cases "j < length rd")
    case True
    note ih = 1(1)[OF True refl refl refl refl refl]
    show ?thesis
      using True ih by (subst extendPage.simps) (simp add: Let_def)
  next
    case False
    then show ?thesis using 1(2) by (subst extendPage.simps) simp
  qed
qed

lemma paginate_NaN: "rd \<noteq> [] \<Longrightarrow> paginate rd col NaN 0 = [rd]"
proof -
  assume ne: "rd \<noteq> []"
  have j: "extendPage rd col NaN 0 {} 0 0 = length rd" by (rule extendPage_NaN) simp
  have "paginate rd col NaN (length rd) = []" by (subst paginate.simps) simp
  then show ?thesis
    using ne by (subst paginate.simps) (simp add: Let_def j slice_def)
qed

lemma concat_paginate: "concat (paginate rd col mc i) = drop i rd"
proof (induction rd col mc i rule: paginate.induct)
  case (1 rd col mc i)
  show ?case
  proof (cases "i < length rd")
    case False
    then show ?thesis by (subst paginate.simps) simp
  next
    case True
    let ?j = "extendPage rd col mc i {} 0 0"
    let ?j' = "if ?j = i then i + 1 else ?j"
    have ge: "i \<le> ?j'" using extendPage_ge[of i rd col mc "{}" 0 0] by simp
    have "concat (paginate rd col mc i) = slice rd i ?j' @ concat (paginate rd col mc ?j')"
      using True by (subst paginate.simps) (simp add: Let_def)
    also have "\<dots> = slice rd i ?j' @ drop ?j' rd"
      using "1.IH"[OF True refl refl] by simp
    also have "\<dots> = take (?j' - i) (drop i rd) @ drop (?j' - i) (drop i rd)"
      using ge by (simp add: slice_def)
    also have "\<dots> = drop i rd" by (rule append_take_drop_id)
    finally show ?thesis .
  qed
qed

lemma distinct_map_ownPropertyOrder:
  "distinct (map g (ownPropertyOrder key xs)) = distinct (map g xs)"
proof -
  have "mset (map g (ownPropertyOrder key xs)) = mset (map g xs)"
    by (simp only: mset_map mset_ownPropertyOrder)
  then show ?thesis by (rule mset_eq_imp_distinct_iff)
qed

lemma foldl_reorderStep:
  "foldl (reorderStep data col) acc cats =
   (fst acc @ concat (map (\<lambda>c. filter (\<lambda>r. getField r col = Str c) data)
                        (filter (\<lambda>c. c \<noteq> otherConcept) cats)),
    snd acc @ concat (map (\<lambda>c. filter (\<lambda>r. getField r col = Str c) data)
                        (filter (\<lambda>c. c = otherConcept) cats)))"
  by (induction cats arbitrary: acc) (simp_all add: reorderStep_def Let_def)

lemma key_in_countedKeys:
  "r \<in> set data \<Longrightarrow> getField r col = Str c \<Longrightarrow> c \<noteq> protoKey \<Longrightarrow>
   c \<in> set (countedKeys data col)"
  by (force simp: countedKeys_def categoryKeys_def toString_def)

lemma otherConcept_not_proto: "otherConcept \<noteq> protoKey"
  by (simp add: otherConcept_def protoKey_def ascii_def)

lemma distinct_plainCategories: "distinct (plainCategories data col)"
proof -
  let ?ks = "firstSeen (countedKeys data col)"
  have "distinct (map fst (countCategories data col))"
    by (simp add: countCategories_graph comp_def distinct_firstSeen)
  then have "distinct (map fst (Object_entries (countCategories data col)))"
    by (simp only: Object_entries_def distinct_map_ownPropertyOrder)
  then have "distinct (map fst (filter (\<lambda>(cat, n). cat \<noteq> otherConcept)
      (Object_entries (countCategories data col))))"
    by (rule distinct_map_filter)
  then show ?thesis
    by (simp only: plainCategories_def sortByCountDesc_def distinct_map_sort_key)
qed

lemma set_plainCategories:
  "set (plainCategories data col) = set (countedKeys data col) - {otherConcept}"
proof -
  have "set (countCategories data col) =
      (\<lambda>k. (k, count_list (countedKeys data col) k)) ` set (countedKeys data col)"
    by (simp add: countCategories_graph set_firstSeen)
  then have "set (plainCategories data col) =
      fst ` {p \<in> (\<lambda>k. (k, count_list (countedKeys data col) k)) ` set (countedKeys data col).
              fst p \<noteq> otherConcept}"
    by (simp add: plainCategories_def sortByCountDesc_def Object_entries_def
        set_ownPropertyOrder split_def)
  also have "\<dots> = set (countedKeys data col) - {otherConcept}"
    by force
  finally show ?thesis .
qed

lemma sortedCategoriesOf_eq:
  "sortedCategoriesOf (countCategories data col) =
   plainCategories data col @
   (if otherConcept \<in> set (countedKeys data col) then [otherConcept] else [])"
proof -
  have "(case map_of (countCategories data col) otherConcept of None \<Rightarrow> False | Some n \<Rightarrow> n \<noteq> 0)
        \<longleftrightarrow> otherConcept \<in> set (countedKeys data col)"
    by (simp add: countCategories_graph map_of_graph set_firstSeen count_list_0_iff)
  then show ?thesis
    by (simp add: sortedCategoriesOf_def plainCategories_def Let_def)
qed

lemma reorderData_concat:
  "reorderData data col cats =
   concat (map (\<lambda>c. filter (\<lambda>r. getField r col = Str c) data)
             (filter (\<lambda>c. c \<noteq> otherConcept) cats))
   @ concat (map (\<lambda>c. filter (\<lambda>r. getField r col = Str c) data)
               (filter (\<lambda>c. c = otherConcept) cats))"
  by (simp add: reorderData_def Let_def foldl_reorderStep)

lemma reorderData_eq:
  "reorderData data col (sortedCategoriesOf (countCategories data col)) =
   concat (map (\<lambda>c. filter (\<lambda>r. getField r col = Str c) data) (plainCategories data col))
   @ filter (\<lambda>r. getField r col = Str otherConcept) data"
proof -
  have no: "filter (\<lambda>c. c \<noteq> otherConcept) (plainCategories data col) = plainCategories data col"
    and nil: "filter (\<lambda>c. c = otherConcept) (plainCategories data col) = []"
    using set_plainCategories[of data col] by (auto simp: filter_empty_conv)
  show ?thesis
  proof (cases "otherConcept \<in> set (countedKeys data col)")
    case True
    then show ?thesis
      by (simp add: reorderData_concat sortedCategoriesOf_eq no nil)
  next
    case False
    have "\<And>r. r \<in> set data \<Longrightarrow> getField r col \<noteq> Str otherConcept"
      using False key_in_countedKeys otherConcept_not_proto by blast
    then have "filter (\<lambda>r. getField r col = Str otherConcept) data = []"
      by (simp add: filter_empty_conv)
    then show ?thesis
      using False by (simp add: reorderData_concat sortedCategoriesOf_eq no nil)
  qed
qed

lemma pages_concat:
  "concat (splitIntoPagesByCategoryPriority data col mc) =
   concat (map (\<lambda>c. filter (\<lambda>r. getField r col = Str c) data) (plainCategories data col))
   @ filter (\<lambda>r. getField r col = Str otherConcept) data"
  by (simp add: splitIntoPagesByCategoryPriority_def Let_def concat_paginate reorderData_eq)

lemma mset_filter_disjoint:
  "(\<And>x. x \<in> set xs \<Longrightarrow> \<not> (P x \<and> Q x)) \<Longrightarrow>
   mset (filter P xs) + mset (filter Q xs) = mset (filter (\<lambda>x. P x \<or> Q x) xs)"
  by (induction xs) auto

lemma mset_groups:
  "distinct cs \<Longrightarrow>
   mset (concat (map (\<lambda>c. filter (\<lambda>r. g r = Str c) data) cs)) =
   mset (filter (\<lambda>r. \<exists>c \<in> set cs. g r = Str c) data)"
proof (induction cs)
  case Nil
  show ?case by simp
next
  case (Cons c cs)
  have "mset (filter (\<lambda>r. g r = Str c) data) + mset (filter (\<lambda>r. \<exists>c' \<in> set cs. g r = Str c') data)
      = mset (filter (\<lambda>r. g r = Str c \<or> (\<exists>c' \<in> set cs. g r = Str c')) data)"
    using Cons.prems by (intro mset_filter_disjoint) auto
  then show ?case using Cons by simp
qed

lemma in_groups:
  "r \<in> set (concat (map (\<lambda>c. filter (\<lambda>r. g r = Str c) data) cs)) \<Longrightarrow>
   \<exists>c \<in> set cs. g r = Str c"
  by (induction cs) auto

lemma pages_mset:
  "mset (concat (splitIntoPagesByCategoryPriority data col mc)) =
   mset (filter (\<lambda>r. isStr (getField r col) \<and> getField r col \<noteq> Str protoKey) data)"
proof -
  let ?g = "\<lambda>r. getField r col"
  have "mset (concat (splitIntoPagesByCategoryPriority data col mc)) =
      mset (filter (\<lambda>r. \<exists>c \<in> set (plainCategories data col). ?g r = Str c) data)
      + mset (filter (\<lambda>r. ?g r = Str otherConcept) data)"
    by (simp only: pages_concat mset_append mset_groups[OF distinct_plainCategories])
  also have "\<dots> = mset (filter (\<lambda>r. (\<exists>c \<in> set (plainCategories data col). ?g r = Str c)
      \<or> ?g r = Str otherConcept) data)"
  proof (rule mset_filter_disjoint)
    fix r
    have "otherConcept \<notin> set (plainCategories data col)" by (simp add: set_plainCategories)
    then show "\<not> ((\<exists>c \<in> set (plainCategories data col). ?g r = Str c)
        \<and> ?g r = Str otherConcept)"
      by auto
  qed
  also have "\<dots> = mset (filter (\<lambda>r. isStr (?g r) \<and> ?g r \<noteq> Str protoKey) data)"
  proof -
    have "filter (\<lambda>r. (\<exists>c \<in> set (plainCategories data col). ?g r = Str c)
      \<or> ?g r = Str otherConcept) data = filter (\<lambda>r. isStr (?g r) \<and> ?g r \<noteq> Str protoKey) data"
    proof (rule filter_cong[OF refl])
      fix r assume r: "r \<in> set data"
      show "((\<exists>c \<in> set (plainCategories data col). ?g r = Str c) \<or> ?g r = Str otherConcept)
        = (isStr (?g r) \<and> ?g r \<noteq> Str protoKey)"
      proof (cases "?g r")
        case (Str s)
        show ?thesis
        proof (cases "s = protoKey")
          case True
          then show ?thesis
            using Str otherConcept_not_proto
            by (auto simp: isStr_def set_plainCategories countedKeys_def)
        next
          case False
          then have "s \<in> set (countedKeys data col)" using r Str key_in_countedKeys by blast
          then show ?thesis using Str False by (auto simp: isStr_def set_plainCategories)
        qed
      qed (auto simp: isStr_def)
    qed
    then show ?thesis by simp
  qed
  finally show ?thesis .
qed

lemma pages_permutation_of_string_rows:
  "\<forall>r \<in> set data. isStr (getField r col) \<and> getField r col \<noteq> Str protoKey \<Longrightarrow>
   mset (concat (splitIntoPagesByCategoryPriority data col mc)) = mset data"
  by (simp add: pages_mset)

text \<open>
  Every page satisfies 2 \<times> (number of distinct values of the grouping field in the
  page) + (number of rows of the page) \<open>\<le> maxConstraint\<close>, or has exactly one row,
  for every dataset, every grouping field and every \<open>maxConstraint\<close> other than \<open>NaN\<close>.
\<close>

lemma pages_within_constraint:
  "maxConstraint \<noteq> NaN \<Longrightarrow>
   \<forall>p \<in> set (splitIntoPagesByCategoryPriority data categoryCol maxConstraint).
     lessEq (2 * int (distinctGroups categoryCol p) + int (length p)) maxConstraint
     \<or> length p = 1"
  unfolding splitIntoPagesByCategoryPriority_def Let_def
  using paginate_pages by blast

lemma pages_within_constraint_example:
  "splitIntoPagesByCategoryPriority
     [[(limitReasonKey, Str [0x41])], [(limitReasonKey, Str [0x42])],
      [(limitReasonKey, Str [0x41])]] limitReasonKey (Finite 5)
   = [[[(limitReasonKey, Str [0x41])], [(limitReasonKey, Str [0x41])]],
      [[(limitReasonKey, Str [0x42])]]]"
  "splitIntoPagesByCategoryPriority
     [[(limitReasonKey, Str [0x41])], [(limitReasonKey, Str [0x42])],
      [(limitReasonKey, Str [0x41])]] limitReasonKey (Finite (- 1))
   = [[[(limitReasonKey, Str [0x41])]], [[(limitReasonKey, Str [0x41])]],
      [[(limitReasonKey, Str [0x42])]]]"
  by code_simp+

text \<open>
  C1 says that every page satisfies the constraint or has exactly one row, for every
  \<open>maxConstraint\<close>. The code breaks this when \<open>maxConstraint\<close> is \<open>NaN\<close>, which the
  upload handler passes for a form field that is not a numeral: the three rows below
  are in one page, which does not satisfy the constraint. (The comment above the
  test \<open>j === i\<close> says that where no row satisfies the condition one row is kept,
  and for a constraint that no page can satisfy, such as -1, the code does make pages
  of one row: lemma \<open>pages_within_constraint_example\<close>.)
\<close>

theorem pages_unbounded_at_NaN:
  "splitIntoPagesByCategoryPriority
     [[(limitReasonKey, Str [0x41])], [(limitReasonKey, Str [0x42])],
      [(limitReasonKey, Str [0x41])]] limitReasonKey NaN
   = [[[(limitReasonKey, Str [0x41])], [(limitReasonKey, Str [0x41])],
       [(limitReasonKey, Str [0x42])]]]
   \<and> \<not> lessEq (2 * int (distinctGroups limitReasonKey
          [[(limitReasonKey, Str [0x41])], [(limitReasonKey, Str [0x41])],
           [(limitReasonKey, Str [0x42])]])
        + int (length [[(limitReasonKey, Str [0x41])], [(limitReasonKey, Str [0x41])],
           [(limitReasonKey, Str [0x42])]])) NaN
   \<and> length [[(limitReasonKey, Str [0x41])], [(limitReasonKey, Str [0x41])],
         [(limitReasonKey, Str [0x42])]] = 3"
  by code_simp

text \<open>
  C2 says that the pages, concatenated in page order, are a permutation of the input
  rows. The code breaks this on a row whose grouping cell is a number: the row is
  counted under the key \<open>5\<close>, but \<open>row[categoryCol] === cat\<close> compares the number with
  that string, and the row reaches no page. (Lemma \<open>pages_mset\<close> says which rows the
  pages hold.)
\<close>

theorem pages_drop_number_cell:
  "concat (splitIntoPagesByCategoryPriority
      [[(limitReasonKey, Str [0x41])], [(limitReasonKey, Num 5)]] limitReasonKey (Finite 33))
   = [[(limitReasonKey, Str [0x41])]]"
  by code_simp

text \<open>
  C6: in the rows of the pages, taken in page order, every row whose grouping field
  is the sentinel comes after every row whose grouping field is not, whatever the
  count of the sentinel group is.
\<close>

theorem sentinel_last:
  fixes data :: "row list" and categoryCol :: jsstring and maxConstraint :: number
  defines "rows \<equiv> concat (splitIntoPagesByCategoryPriority data categoryCol maxConstraint)"
  assumes "i < length rows" and "j < length rows"
    and "getField (rows ! i) categoryCol = Str otherConcept"
    and "getField (rows ! j) categoryCol \<noteq> Str otherConcept"
  shows "j < i"
proof -
  define cats where "cats = sortedCategoriesOf (countCategories data categoryCol)"
  define A where "A = concat (map (\<lambda>c. filter (\<lambda>r. getField r categoryCol = Str c) data)
      (filter (\<lambda>c. c \<noteq> otherConcept) cats))"
  define B where "B = concat (map (\<lambda>c. filter (\<lambda>r. getField r categoryCol = Str c) data)
      (filter (\<lambda>c. c = otherConcept) cats))"
  have "rows = reorderData data categoryCol cats"
    unfolding rows_def cats_def
    by (simp add: splitIntoPagesByCategoryPriority_def Let_def concat_paginate)
  then have rows: "rows = A @ B"
    unfolding A_def B_def by (simp only: reorderData_concat)
  have A: "getField r categoryCol \<noteq> Str otherConcept" if r: "r \<in> set A" for r
  proof -
    obtain c where "c \<in> set (filter (\<lambda>c. c \<noteq> otherConcept) cats)"
      and "getField r categoryCol = Str c"
      using r in_groups[where g = "\<lambda>r. getField r categoryCol"] unfolding A_def by blast
    then show ?thesis by simp
  qed
  have B: "getField r categoryCol = Str otherConcept" if r: "r \<in> set B" for r
  proof -
    obtain c where "c \<in> set (filter (\<lambda>c. c = otherConcept) cats)"
      and "getField r categoryCol = Str c"
      using r in_groups[where g = "\<lambda>r. getField r categoryCol"] unfolding B_def by blast
    then show ?thesis by simp
  qed
  have "j < length A"
  proof (rule ccontr)
    assume n: "\<not> j < length A"
    then have "rows ! j = B ! (j - length A)" unfolding rows by (simp only: nth_append if_False)
    moreover have "j - length A < length B" using n assms(3) unfolding rows by simp
    ultimately have "rows ! j \<in> set B" by (simp only: nth_mem)
    then show False using B assms(5) by blast
  qed
  moreover have "\<not> i < length A"
  proof
    assume l: "i < length A"
    then have "rows ! i = A ! i" unfolding rows by (simp only: nth_append if_True)
    then have "rows ! i \<in> set A" using l by (simp only: nth_mem)
    then show False using A assms(4) by blast
  qed
  ultimately show ?thesis by simp
qed

theorem sentinel_last_witness:
  "2 < length (concat (splitIntoPagesByCategoryPriority
        [[(limitReasonKey, Str otherConcept)], [(limitReasonKey, Str [0x41])],
         [(limitReasonKey, Str otherConcept)], [(limitReasonKey, Str [0x42])]] limitReasonKey (Finite 4)))
   \<and> getField (concat (splitIntoPagesByCategoryPriority
        [[(limitReasonKey, Str otherConcept)], [(limitReasonKey, Str [0x41])],
         [(limitReasonKey, Str otherConcept)], [(limitReasonKey, Str [0x42])]] limitReasonKey (Finite 4)) ! 2)
       limitReasonKey = Str otherConcept
   \<and> getField (concat (splitIntoPagesByCategoryPriority
        [[(limitReasonKey, Str otherConcept)], [(limitReasonKey, Str [0x41])],
         [(limitReasonKey, Str otherConcept)], [(limitReasonKey, Str [0x42])]] limitReasonKey (Finite 4)) ! 1)
       limitReasonKey \<noteq> Str otherConcept
   \<and> (1::nat) < 2"
proof -
  have e: "concat (splitIntoPagesByCategoryPriority
        [[(limitReasonKey, Str otherConcept)], [(limitReasonKey, Str [0x41])],
         [(limitReasonKey, Str otherConcept)], [(limitReasonKey, Str [0x42])]] limitReasonKey (Finite 4))
      = [[(limitReasonKey, Str [0x41])], [(limitReasonKey, Str [0x42])],
         [(limitReasonKey, Str otherConcept)], [(limitReasonKey, Str otherConcept)]]"
    by code_simp
  have o: "[0x42] \<noteq> otherConcept" by (simp add: otherConcept_def)
  show ?thesis
    using sentinel_last
      [of 2 "[[(limitReasonKey, Str otherConcept)], [(limitReasonKey, Str [0x41])],
         [(limitReasonKey, Str otherConcept)], [(limitReasonKey, Str [0x42])]]"
        limitReasonKey "Finite 4" 1]
    unfolding e by (simp add: getField_def o)
qed

end
